theory Spec2Isabelle
  imports Main "HOL-Library.Monad_Syntax"
begin

section \<open>The Composite pattern of Linker.cpp\<close>

text \<open>
  The classes \<^verbatim>\<open>Component\<close>, \<^verbatim>\<open>Leaf\<close> and \<^verbatim>\<open>Composite\<close> of Linker.cpp hold raw
  pointers to each other: a component stores a pointer to its parent, a composite a
  \<^verbatim>\<open>std::list<Component *>\<close> of its children. The same object can be reached through
  several pointers, so the objects live in an explicit store, from addresses to objects,
  and every method takes the store and returns the new one.
\<close>

subsection \<open>Pointers, objects and the store\<close>

text \<open>A \<^verbatim>\<open>Component *\<close>: the null pointer or the address of an object.\<close>

datatype ptr = nullptr | Addr nat

text \<open>
  An object of one of the two concrete classes. Both inherit the field \<^verbatim>\<open>parent_\<close>
  from \<^verbatim>\<open>Component\<close>; a \<^verbatim>\<open>Composite\<close> adds the list \<^verbatim>\<open>children_\<close>. The class of an
  object never changes. The selectors \<open>parent_of\<close> and \<open>children_of\<close> read the
  fields \<^verbatim>\<open>parent_\<close> and \<^verbatim>\<open>children_\<close>; a leaf has no children.
\<close>

datatype Component =
    Leaf (parent_of: ptr)
  | Composite (parent_of: ptr) (children_of: "ptr list")
where
  "children_of (Leaf p) = []"

type_synonym heap = "nat \<rightharpoonup> Component"

text \<open>
  Dereferencing: the null pointer and the address of no object have no object behind
  them. In C++ a method call through such a pointer is undefined behaviour; the model
  returns \<open>None\<close> there.
\<close>

fun deref :: "heap \<Rightarrow> ptr \<Rightarrow> Component option" where
  "deref h nullptr = None"
| "deref h (Addr a) = h a"

subsection \<open>Construction\<close>

text \<open>
  \<^verbatim>\<open>new Leaf\<close> and \<^verbatim>\<open>new Composite\<close>, as \<^verbatim>\<open>main\<close> writes them. No class declares a
  constructor and \<^verbatim>\<open>parent_\<close> has no initialiser, so the implicit default constructor
  leaves \<^verbatim>\<open>parent_\<close> with an indeterminate value; \<^verbatim>\<open>children_\<close> is default-constructed
  to the empty list. The address \<open>a\<close> chosen by the allocator and the indeterminate
  content \<open>junk\<close> of \<^verbatim>\<open>parent_\<close> are parameters of the model.
\<close>

definition new_Leaf :: "heap \<Rightarrow> nat \<Rightarrow> ptr \<Rightarrow> heap" where
  "new_Leaf h a junk = h(a \<mapsto> Leaf junk)"

definition new_Composite :: "heap \<Rightarrow> nat \<Rightarrow> ptr \<Rightarrow> heap" where
  "new_Composite h a junk = h(a \<mapsto> Composite junk [])"

subsection \<open>The methods of \<^verbatim>\<open>Component\<close>\<close>

text \<open>The assignment \<^verbatim>\<open>this->parent_ = parent\<close> on an object of either class.\<close>

fun with_parent :: "Component \<Rightarrow> ptr \<Rightarrow> Component" where
  "with_parent (Leaf old) parent = Leaf parent"
| "with_parent (Composite old cs) parent = Composite parent cs"

definition SetParent :: "heap \<Rightarrow> ptr \<Rightarrow> ptr \<Rightarrow> heap option" where
  "SetParent h this parent =
     (case this of
        nullptr \<Rightarrow> None
      | Addr a \<Rightarrow>
          (case h a of
             None \<Rightarrow> None
           | Some obj \<Rightarrow> Some (h(a \<mapsto> with_parent obj parent))))"

definition GetParent :: "heap \<Rightarrow> ptr \<Rightarrow> ptr option" where
  "GetParent h this =
     (case deref h this of None \<Rightarrow> None | Some obj \<Rightarrow> Some (parent_of obj))"

text \<open>
  The virtual methods, dispatched on the class of the object behind \<open>this\<close>.
  \<^verbatim>\<open>Leaf\<close> inherits the empty bodies of \<^verbatim>\<open>Component::Add\<close> and \<^verbatim>\<open>Component::Remove\<close>,
  which never touch their argument. \<^verbatim>\<open>Composite::Add\<close> is \<^verbatim>\<open>push_back\<close> followed by
  \<^verbatim>\<open>component->SetParent(this)\<close>; \<^verbatim>\<open>Composite::Remove\<close> is \<^verbatim>\<open>std::list::remove\<close>, which
  erases every element equal to its argument, followed by
  \<^verbatim>\<open>component->SetParent(nullptr)\<close>. In both the list is updated first, in the store,
  and \<^verbatim>\<open>SetParent\<close> then runs on the updated store: the argument may be the composite
  itself.
\<close>

definition Add :: "heap \<Rightarrow> ptr \<Rightarrow> ptr \<Rightarrow> heap option" where
  "Add h this component =
     (case this of
        nullptr \<Rightarrow> None
      | Addr a \<Rightarrow>
          (case h a of
             None \<Rightarrow> None
           | Some (Leaf p) \<Rightarrow> Some h
           | Some (Composite p cs) \<Rightarrow>
               SetParent (h(a \<mapsto> Composite p (cs @ [component]))) component (Addr a)))"

definition Remove :: "heap \<Rightarrow> ptr \<Rightarrow> ptr \<Rightarrow> heap option" where
  "Remove h this component =
     (case this of
        nullptr \<Rightarrow> None
      | Addr a \<Rightarrow>
          (case h a of
             None \<Rightarrow> None
           | Some (Leaf p) \<Rightarrow> Some h
           | Some (Composite p cs) \<Rightarrow>
               SetParent (h(a \<mapsto> Composite p (removeAll component cs))) component nullptr))"

definition IsComposite :: "heap \<Rightarrow> ptr \<Rightarrow> bool option" where
  "IsComposite h this =
     (case deref h this of
        None \<Rightarrow> None
      | Some (Leaf p) \<Rightarrow> Some False
      | Some (Composite p cs) \<Rightarrow> Some True)"

text \<open>
  \<^verbatim>\<open>Operation\<close> recurses through the pointers of the store, and on a store with a cycle
  the C++ recursion never returns. The model counts the nesting depth of the calls with
  a fuel argument: \<open>Operation n h this\<close> is \<open>None\<close> when the recursion would nest deeper
  than \<open>n\<close> calls, or when it dereferences a pointer with no object behind it.
  \<open>Operation_loop\<close> is the range-for loop of \<^verbatim>\<open>Composite::Operation\<close>: \<open>children\<close> is
  the whole list \<^verbatim>\<open>children_\<close>, the fourth argument the elements still to visit, the
  fifth the local \<^verbatim>\<open>result\<close>. The test \<^verbatim>\<open>c == children_.back()\<close> compares pointers.
\<close>

fun Operation :: "nat \<Rightarrow> heap \<Rightarrow> ptr \<Rightarrow> string option"
  and Operation_loop :: "nat \<Rightarrow> heap \<Rightarrow> ptr list \<Rightarrow> ptr list \<Rightarrow> string \<Rightarrow> string option"
where
  "Operation 0 h this = None"
| "Operation (Suc n) h this =
     (case deref h this of
        None \<Rightarrow> None
      | Some (Leaf p) \<Rightarrow> Some ''Leaf''
      | Some (Composite p cs) \<Rightarrow>
          (case Operation_loop n h cs cs [] of
             None \<Rightarrow> None
           | Some result \<Rightarrow> Some (''Branch('' @ result @ '')'')))"
| "Operation_loop n h children [] result = Some result"
| "Operation_loop n h children (c # rest) result =
     (case Operation n h c of
        None \<Rightarrow> None
      | Some s \<Rightarrow>
          if c = last children
          then Operation_loop n h children rest (result @ s)
          else Operation_loop n h children rest (result @ s @ ''+''))"

text \<open>
  How many calls of \<^verbatim>\<open>Operation\<close> one call of \<^verbatim>\<open>Operation\<close> makes, itself included: the
  same recursion, with the same fuel, that adds one for the call and, in the loop, the
  calls of every \<^verbatim>\<open>c->Operation()\<close>. The third argument of \<open>Operation_loop_calls\<close> is
  the list of children still to visit, the fourth the calls counted so far.
\<close>

fun Operation_calls :: "nat \<Rightarrow> heap \<Rightarrow> ptr \<Rightarrow> nat option"
  and Operation_loop_calls :: "nat \<Rightarrow> heap \<Rightarrow> ptr list \<Rightarrow> nat \<Rightarrow> nat option"
where
  "Operation_calls 0 h this = None"
| "Operation_calls (Suc n) h this =
     (case deref h this of
        None \<Rightarrow> None
      | Some (Leaf p) \<Rightarrow> Some 1
      | Some (Composite p cs) \<Rightarrow>
          (case Operation_loop_calls n h cs 0 of
             None \<Rightarrow> None
           | Some k \<Rightarrow> Some (Suc k)))"
| "Operation_loop_calls n h [] k = Some k"
| "Operation_loop_calls n h (c # rest) k =
     (case Operation_calls n h c of
        None \<Rightarrow> None
      | Some j \<Rightarrow> Operation_loop_calls n h rest (k + j))"

text \<open>
  What a description joined by the separator is: the strings in their order, with \<open>+\<close>
  between every two adjacent ones.
\<close>

fun join_plus :: "string list \<Rightarrow> string" where
  "join_plus [] = []"
| "join_plus [s] = s"
| "join_plus (s # t # ss) = s @ ''+'' @ join_plus (t # ss)"

subsection \<open>The tree of \<^verbatim>\<open>main\<close>\<close>

text \<open>
  The objects \<^verbatim>\<open>main\<close> allocates and the calls of \<^verbatim>\<open>Add\<close> it makes before it prints
  the tree, in its order: \<^verbatim>\<open>simple\<close> at address 0, \<^verbatim>\<open>tree\<close> at 1, \<^verbatim>\<open>branch1\<close> at 2,
  \<^verbatim>\<open>leaf_1\<close>, \<^verbatim>\<open>leaf_2\<close> and \<^verbatim>\<open>leaf_3\<close> at 3, 4 and 5, \<^verbatim>\<open>branch2\<close> at 6. Every
  \<^verbatim>\<open>parent_\<close> starts with the content \<open>junk\<close>.
\<close>

definition main_tree :: "ptr \<Rightarrow> heap option" where
  "main_tree junk =
     do {
       let h = new_Leaf Map.empty 0 junk;
       let h = new_Composite h 1 junk;
       let h = new_Composite h 2 junk;
       let h = new_Leaf h 3 junk;
       let h = new_Leaf h 4 junk;
       let h = new_Leaf h 5 junk;
       h \<leftarrow> Add h (Addr 2) (Addr 3);
       h \<leftarrow> Add h (Addr 2) (Addr 4);
       let h = new_Composite h 6 junk;
       h \<leftarrow> Add h (Addr 6) (Addr 5);
       h \<leftarrow> Add h (Addr 1) (Addr 2);
       Add h (Addr 1) (Addr 6)
     }"

subsection \<open>Reading the store\<close>

text \<open>The child sequence of the object at an address; empty for a leaf and for no object.\<close>

definition child_seq :: "heap \<Rightarrow> nat \<Rightarrow> ptr list" where
  "child_seq h a = (case h a of None \<Rightarrow> [] | Some obj \<Rightarrow> children_of obj)"

text \<open>
  The parent/child consistency of a store: an object that occurs in the child sequence
  of an object has that object as its parent, and an object that occurs in no child
  sequence has the null parent.
\<close>

definition parent_consistent :: "heap \<Rightarrow> bool" where
  "parent_consistent h \<longleftrightarrow>
     (\<forall>c\<in>dom h. \<forall>q\<in>dom h.
        Addr c \<in> set (child_seq h q) \<longrightarrow> GetParent h (Addr c) = Some (Addr q)) \<and>
     (\<forall>c\<in>dom h.
        (\<forall>q\<in>dom h. Addr c \<notin> set (child_seq h q)) \<longrightarrow> GetParent h (Addr c) = Some nullptr)"

text \<open>
  A store of objects nobody has linked yet: every parent is null and every child
  sequence is empty.
\<close>

definition unlinked :: "heap \<Rightarrow> bool" where
  "unlinked h \<longleftrightarrow>
     (\<forall>a\<in>dom h. h a = Some (Leaf nullptr) \<or> h a = Some (Composite nullptr []))"

subsection \<open>Sequences of client calls\<close>

datatype call = CallAdd ptr ptr | CallRemove ptr ptr | CallSetParent ptr ptr

fun exec :: "heap \<Rightarrow> call \<Rightarrow> heap option" where
  "exec h (CallAdd this component) = Add h this component"
| "exec h (CallRemove this component) = Remove h this component"
| "exec h (CallSetParent this parent) = SetParent h this parent"

fun run :: "heap \<Rightarrow> call list \<Rightarrow> heap option" where
  "run h [] = Some h"
| "run h (c # cs) = (case exec h c of None \<Rightarrow> None | Some h' \<Rightarrow> run h' cs)"

text \<open>
  \<open>held_elsewhere h this component\<close>: the component occurs in the child sequence of an
  object other than the receiver \<open>this\<close>.
\<close>

definition held_elsewhere :: "heap \<Rightarrow> ptr \<Rightarrow> ptr \<Rightarrow> bool" where
  "held_elsewhere h this component \<longleftrightarrow>
     (\<exists>q\<in>dom h. Addr q \<noteq> this \<and> component \<in> set (child_seq h q))"

text \<open>
  The calls of a client that keeps every object in at most one composite: \<^verbatim>\<open>Add\<close> and
  \<^verbatim>\<open>Remove\<close> with an argument that no other object holds, and no direct \<^verbatim>\<open>SetParent\<close>.
\<close>

fun permitted :: "heap \<Rightarrow> call \<Rightarrow> bool" where
  "permitted h (CallAdd this component) = (\<not> held_elsewhere h this component)"
| "permitted h (CallRemove this component) = (\<not> held_elsewhere h this component)"
| "permitted h (CallSetParent this parent) = False"

fun disciplined :: "heap \<Rightarrow> call list \<Rightarrow> bool" where
  "disciplined h [] = True"
| "disciplined h (c # cs) =
     (permitted h c \<and> (case exec h c of None \<Rightarrow> False | Some h' \<Rightarrow> disciplined h' cs))"

subsection \<open>The tree below an object\<close>

text \<open>
  \<open>(c, p) \<in> child_rel h\<close>: the object at \<open>c\<close> is in the child sequence of the object at
  \<open>p\<close>. The objects of the tree below an object are the object and its descendants.
\<close>

definition child_rel :: "heap \<Rightarrow> (nat \<times> nat) set" where
  "child_rel h = {(c, p). Addr c \<in> set (child_seq h p)}"

definition descendants :: "heap \<Rightarrow> nat \<Rightarrow> nat set" where
  "descendants h a = {b. (b, a) \<in> (child_rel h)\<^sup>*}"

text \<open>
  Three properties of the tree below the object at \<open>a\<close>; none of them looks at the rest
  of the store. Closed: every child pointer in the tree has an object behind it.
  Acyclic: no object of the tree is its own descendant, directly or transitively.
  Unshared: no object occurs twice in the child sequences of the tree, neither twice in
  one sequence nor in the sequences of two objects.
\<close>

definition closed_below :: "heap \<Rightarrow> nat \<Rightarrow> bool" where
  "closed_below h a \<longleftrightarrow>
     (\<forall>p\<in>descendants h a. \<forall>c\<in>set (child_seq h p). deref h c \<noteq> None)"

definition acyclic_below :: "heap \<Rightarrow> nat \<Rightarrow> bool" where
  "acyclic_below h a \<longleftrightarrow> (\<forall>b\<in>descendants h a. (b, b) \<notin> (child_rel h)\<^sup>+)"

definition unshared_below :: "heap \<Rightarrow> nat \<Rightarrow> bool" where
  "unshared_below h a \<longleftrightarrow>
     (\<forall>p\<in>descendants h a. distinct (child_seq h p)) \<and>
     (\<forall>p\<in>descendants h a. \<forall>q\<in>descendants h a.
        p \<noteq> q \<longrightarrow> set (child_seq h p) \<inter> set (child_seq h q) = {})"

subsection \<open>Concrete stores\<close>

text \<open>
  A composite at address 0 and a leaf at address 1, both new with a null parent; the
  store after \<^verbatim>\<open>Add\<close> has put the leaf into the composite once, and twice.
\<close>

definition two_fresh :: heap where
  "two_fresh = new_Leaf (new_Composite Map.empty 0 nullptr) 1 nullptr"

definition added_once :: heap where
  "added_once = [0 \<mapsto> Composite nullptr [Addr 1], 1 \<mapsto> Leaf (Addr 0)]"

definition added_twice :: heap where
  "added_twice = [0 \<mapsto> Composite nullptr [Addr 1, Addr 1], 1 \<mapsto> Leaf (Addr 0)]"

definition removed_all :: heap where
  "removed_all = [0 \<mapsto> Composite nullptr [], 1 \<mapsto> Leaf nullptr]"

text \<open>
  Two composites at addresses 0 and 1 and a leaf at address 2, all new with a null
  parent, and stores that calls on them lead to: the leaf in composite 1 only; the leaf
  still in composite 1 with its parent cleared; the leaf in both composites; the leaf in
  no composite with composite 0 as its parent.
\<close>

definition three_fresh :: heap where
  "three_fresh =
     new_Leaf (new_Composite (new_Composite Map.empty 0 nullptr) 1 nullptr) 2 nullptr"

definition held_by_one :: heap where
  "held_by_one =
     [0 \<mapsto> Composite nullptr [], 1 \<mapsto> Composite nullptr [Addr 2], 2 \<mapsto> Leaf (Addr 1)]"

definition held_parent_cleared :: heap where
  "held_parent_cleared =
     [0 \<mapsto> Composite nullptr [], 1 \<mapsto> Composite nullptr [Addr 2], 2 \<mapsto> Leaf nullptr]"

definition held_by_both :: heap where
  "held_by_both =
     [0 \<mapsto> Composite nullptr [Addr 2], 1 \<mapsto> Composite nullptr [Addr 2], 2 \<mapsto> Leaf (Addr 1)]"

definition parent_set_directly :: heap where
  "parent_set_directly =
     [0 \<mapsto> Composite nullptr [], 1 \<mapsto> Composite nullptr [], 2 \<mapsto> Leaf (Addr 0)]"

text \<open>A client that moves the leaf from composite 1 to composite 0, and its result.\<close>

definition move_leaf :: "call list" where
  "move_leaf =
     [CallAdd (Addr 0) (Addr 1), CallAdd (Addr 1) (Addr 2),
      CallRemove (Addr 1) (Addr 2), CallAdd (Addr 0) (Addr 2)]"

definition leaf_moved :: heap where
  "leaf_moved =
     [0 \<mapsto> Composite nullptr [Addr 1, Addr 2], 1 \<mapsto> Composite (Addr 0) [],
      2 \<mapsto> Leaf (Addr 0)]"

text \<open>The store \<^verbatim>\<open>main\<close> has built when it prints the tree.\<close>

definition main_heap :: "ptr \<Rightarrow> heap" where
  "main_heap junk =
     [0 \<mapsto> Leaf junk, 1 \<mapsto> Composite junk [Addr 2, Addr 6],
      2 \<mapsto> Composite (Addr 1) [Addr 3, Addr 4], 3 \<mapsto> Leaf (Addr 2), 4 \<mapsto> Leaf (Addr 2),
      5 \<mapsto> Leaf (Addr 6), 6 \<mapsto> Composite (Addr 1) [Addr 5]]"

text \<open>
  Two composites at addresses 0 and 1 and a leaf at address 2, new with null parents; a
  client that adds the leaf to composite 1 twice and composite 1 to composite 0 twice;
  and the store these calls leave, three objects with no cycle.
\<close>

definition share_twice :: "call list" where
  "share_twice =
     [CallAdd (Addr 1) (Addr 2), CallAdd (Addr 1) (Addr 2),
      CallAdd (Addr 0) (Addr 1), CallAdd (Addr 0) (Addr 1)]"

definition shared_twice :: heap where
  "shared_twice =
     [0 \<mapsto> Composite nullptr [Addr 1, Addr 1], 1 \<mapsto> Composite (Addr 0) [Addr 2, Addr 2],
      2 \<mapsto> Leaf (Addr 1)]"

text \<open>The tree of \<^verbatim>\<open>main\<close> in a store that also holds a composite put into itself.\<close>

definition main_beside_cycle :: heap where
  "main_beside_cycle = (main_heap nullptr)(7 \<mapsto> Composite (Addr 7) [Addr 7])"

text \<open>A composite that \<^verbatim>\<open>Add\<close> has put into itself.\<close>

definition self_held :: heap where
  "self_held = [0 \<mapsto> Composite (Addr 0) [Addr 0]]"

section \<open>Basic facts\<close>

lemma parent_of_with_parent [simp]: "parent_of (with_parent obj p) = p"
  by (cases obj) simp_all

lemma children_of_with_parent [simp]: "children_of (with_parent obj p) = children_of obj"
  by (cases obj) simp_all

lemma SetParent_Some:
  assumes "SetParent h c v = Some h'"
  obtains x obj where "c = Addr x" and "h x = Some obj" and "h' = h(x \<mapsto> with_parent obj v)"
  using assms by (auto simp: SetParent_def split: ptr.splits option.splits)

text \<open>What a successful \<^verbatim>\<open>Add\<close> and \<^verbatim>\<open>Remove\<close> on a composite change in the store.\<close>

lemma Add_Composite_effect:
  assumes "h a = Some (Composite p cs)" and "Add h (Addr a) c = Some h'"
  shows "dom h' = dom h"
    and "child_seq h' q = (if q = a then cs @ [c] else child_seq h q)"
    and "GetParent h' (Addr x) = (if Addr x = c then Some (Addr a) else GetParent h (Addr x))"
    and "\<exists>y. c = Addr y \<and> y \<in> dom h"
  using assms
  by (auto simp: Add_def child_seq_def GetParent_def elim!: SetParent_Some split: if_splits)

lemma Remove_Composite_effect:
  assumes "h a = Some (Composite p cs)" and "Remove h (Addr a) c = Some h'"
  shows "dom h' = dom h"
    and "child_seq h' q = (if q = a then removeAll c cs else child_seq h q)"
    and "GetParent h' (Addr x) = (if Addr x = c then Some nullptr else GetParent h (Addr x))"
    and "\<exists>y. c = Addr y \<and> y \<in> dom h"
  using assms
  by (auto simp: Remove_def child_seq_def GetParent_def elim!: SetParent_Some split: if_splits)

text \<open>The concrete stores are what the calls produce.\<close>

lemma main_tree_eq: "main_tree junk = Some (main_heap junk)"
  by (simp add: main_tree_def main_heap_def new_Leaf_def new_Composite_def Add_def
      SetParent_def fun_eq_iff)

lemma Add_two_fresh: "Add two_fresh (Addr 0) (Addr 1) = Some added_once"
  by (simp add: two_fresh_def added_once_def new_Leaf_def new_Composite_def Add_def
      SetParent_def)

lemma Add_added_once: "Add added_once (Addr 0) (Addr 1) = Some added_twice"
  by (simp add: added_twice_def added_once_def Add_def SetParent_def)

lemma Add_three_fresh: "Add three_fresh (Addr 1) (Addr 2) = Some held_by_one"
  by (simp add: three_fresh_def held_by_one_def new_Leaf_def new_Composite_def Add_def
      SetParent_def fun_eq_iff)

section \<open>Describing a tree\<close>

text \<open>
  Where the pointer of the last child occurs nowhere else in the child sequence, the
  loop puts the separator after every child but the last, and \<^verbatim>\<open>Operation\<close> returns
  the descriptions of the children, in their order, joined by \<open>+\<close> and wrapped in
  \<open>Branch(\<close> and \<open>)\<close>.
\<close>

lemma Operation_loop_join:
  assumes "list_all2 (\<lambda>c s. Operation n h c = Some s) rest ss"
    and "rest \<noteq> [] \<Longrightarrow> last rest = last children \<and> last children \<notin> set (butlast rest)"
  shows "Operation_loop n h children rest acc = Some (acc @ join_plus ss)"
  using assms
proof (induction rest ss arbitrary: acc rule: list_all2_induct)
  case Nil
  then show ?case by simp
next
  case (Cons c rest s ss)
  show ?case
  proof (cases rest)
    case Nil
    with Cons.hyps(2) have "ss = []" by simp
    with Nil Cons.hyps(1) Cons.prems show ?thesis by simp
  next
    case (Cons c' rest')
    with Cons.hyps(2) obtain s' ss' where ss: "ss = s' # ss'"
      by (cases ss) auto
    from Cons.prems Cons have last: "last rest = last children"
      and fresh: "last children \<notin> set (butlast rest)" and neq: "c \<noteq> last children"
      by auto
    have "Operation_loop n h children rest (acc @ s @ ''+'') =
        Some ((acc @ s @ ''+'') @ join_plus ss)"
      by (rule Cons.IH) (simp add: last fresh)
    with Cons.hyps(1) neq ss show ?thesis by simp
  qed
qed

lemma Operation_join:
  assumes "h a = Some (Composite p cs)"
    and "list_all2 (\<lambda>c s. Operation n h c = Some s) cs ss"
    and "cs \<noteq> [] \<Longrightarrow> last cs \<notin> set (butlast cs)"
  shows "Operation (Suc n) h (Addr a) = Some (''Branch('' @ join_plus ss @ '')'')"
proof -
  have "Operation_loop n h cs cs [] = Some ([] @ join_plus ss)"
    using assms(2) by (rule Operation_loop_join) (simp add: assms(3))
  with assms(1) show ?thesis by simp
qed

text \<open>
  C1, for a child sequence in which the same child occurs twice. \<^verbatim>\<open>Composite::Operation\<close>
  recognises the last child by comparing each child pointer with \<^verbatim>\<open>children_.back()\<close>,
  so every occurrence of the last child's pointer counts as the last one and gets no
  separator after it. After \<^verbatim>\<open>Add\<close> has put one leaf into a new composite twice, the
  child sequence is that leaf twice and the description is \<open>Branch(LeafLeaf)\<close>, at
  every nesting depth that lets the call return: the separator \<open>+\<close> between the two
  adjacent children is missing, where joining the two descriptions gives \<open>Leaf+Leaf\<close>.
\<close>

theorem C1_Operation_duplicate_child:
  "Add two_fresh (Addr 0) (Addr 1) = Some added_once \<and>
   Add added_once (Addr 0) (Addr 1) = Some added_twice \<and>
   child_seq added_twice 0 = [Addr 1, Addr 1] \<and>
   Operation (Suc n) added_twice (Addr 1) = Some ''Leaf'' \<and>
   Operation (Suc (Suc n)) added_twice (Addr 0) = Some ''Branch(LeafLeaf)'' \<and>
   join_plus [''Leaf'', ''Leaf''] = ''Leaf+Leaf''"
proof -
  have "child_seq added_twice 0 = [Addr 1, Addr 1]"
    by (simp add: added_twice_def child_seq_def)
  moreover have "Operation (Suc n) added_twice (Addr 1) = Some ''Leaf''"
    by (simp add: added_twice_def)
  moreover have "Operation (Suc (Suc n)) added_twice (Addr 0) = Some ''Branch(LeafLeaf)''"
    by (simp add: added_twice_def)
  ultimately show ?thesis
    using Add_two_fresh Add_added_once by simp
qed

text \<open>
  C2: in a store that holds the tree root -> [branchA -> [leaf1, leaf2], branchB ->
  [leaf3]], with two distinct branches and two distinct leaves under branchA,
  \<^verbatim>\<open>Operation\<close> on the root returns \<open>Branch(Branch(Leaf+Leaf)+Branch(Leaf))\<close>, whatever
  the parent fields hold. Three nested calls are enough, and more change nothing.
\<close>

theorem C2_Operation_nested_tree:
  assumes "h r = Some (Composite pr [Addr a, Addr b])"
    and "h a = Some (Composite pa [Addr l1, Addr l2])"
    and "h b = Some (Composite pb [Addr l3])"
    and "h l1 = Some (Leaf p1)" and "h l2 = Some (Leaf p2)" and "h l3 = Some (Leaf p3)"
    and "a \<noteq> b" and "l1 \<noteq> l2"
  shows "Operation (Suc (Suc (Suc n))) h (Addr r) =
           Some ''Branch(Branch(Leaf+Leaf)+Branch(Leaf))''"
  using assms by simp

text \<open>The witness is the tree that \<^verbatim>\<open>main\<close> builds and prints.\<close>

theorem C2_Operation_nested_tree_witness:
  "main_tree nullptr = Some (main_heap nullptr) \<and>
   main_heap nullptr 1 = Some (Composite nullptr [Addr 2, Addr 6]) \<and>
   main_heap nullptr 2 = Some (Composite (Addr 1) [Addr 3, Addr 4]) \<and>
   main_heap nullptr 6 = Some (Composite (Addr 1) [Addr 5]) \<and>
   main_heap nullptr 3 = Some (Leaf (Addr 2)) \<and>
   main_heap nullptr 4 = Some (Leaf (Addr 2)) \<and>
   main_heap nullptr 5 = Some (Leaf (Addr 6)) \<and>
   Operation (Suc (Suc (Suc 0))) (main_heap nullptr) (Addr 1) =
     Some ''Branch(Branch(Leaf+Leaf)+Branch(Leaf))''"
proof -
  have objs:
    "main_heap nullptr 1 = Some (Composite nullptr [Addr 2, Addr 6])"
    "main_heap nullptr 2 = Some (Composite (Addr 1) [Addr 3, Addr 4])"
    "main_heap nullptr 6 = Some (Composite (Addr 1) [Addr 5])"
    "main_heap nullptr 3 = Some (Leaf (Addr 2))"
    "main_heap nullptr 4 = Some (Leaf (Addr 2))"
    "main_heap nullptr 5 = Some (Leaf (Addr 6))"
    by (simp_all add: main_heap_def)
  from C2_Operation_nested_tree [of "main_heap nullptr" 1 nullptr 2 6 "Addr 1" 3 4 "Addr 1" 5
      "Addr 2" "Addr 2" "Addr 6" 0] objs main_tree_eq [of nullptr]
  show ?thesis by simp
qed

text \<open>
  C10: \<^verbatim>\<open>Operation\<close> on a composite with no children returns \<open>Branch()\<close>: the loop
  body never runs. One call is enough, and more change nothing.
\<close>

theorem C10_Operation_empty_Composite:
  assumes "h a = Some (Composite p [])"
  shows "Operation (Suc n) h (Addr a) = Some ''Branch()''"
  using assms by simp

theorem C10_Operation_empty_Composite_witness:
  "two_fresh 0 = Some (Composite nullptr []) \<and>
   Operation (Suc 0) two_fresh (Addr 0) = Some ''Branch()''"
proof -
  have "two_fresh 0 = Some (Composite nullptr [])"
    by (simp add: two_fresh_def new_Leaf_def new_Composite_def)
  with C10_Operation_empty_Composite [of two_fresh 0 nullptr 0] show ?thesis by simp
qed

section \<open>Linking and unlinking\<close>

text \<open>
  C6: on a composite and an argument that points to an object, \<^verbatim>\<open>Add\<close> returns, and
  in the store it leaves \<^verbatim>\<open>GetParent\<close> on the argument returns the composite and the
  argument is the last entry of the composite's child sequence; \<^verbatim>\<open>Remove\<close> returns,
  and in the store it leaves \<^verbatim>\<open>GetParent\<close> on the argument returns the null pointer.
  The argument may be the composite itself.
\<close>

theorem C6_Add_Remove_GetParent:
  assumes "h a = Some (Composite p cs)" and "deref h child = Some obj"
  shows "(\<exists>h'. Add h (Addr a) child = Some h' \<and> GetParent h' child = Some (Addr a) \<and>
            child_seq h' a \<noteq> [] \<and> last (child_seq h' a) = child) \<and>
         (\<exists>h'. Remove h (Addr a) child = Some h' \<and> GetParent h' child = Some nullptr)"
  using assms
  by (cases child) (auto simp: Add_def Remove_def SetParent_def GetParent_def child_seq_def)

theorem C6_Add_Remove_GetParent_witness:
  "added_once 0 = Some (Composite nullptr [Addr 1]) \<and>
   deref added_once (Addr 1) = Some (Leaf (Addr 0)) \<and>
   (\<exists>h'. Add added_once (Addr 0) (Addr 1) = Some h' \<and> GetParent h' (Addr 1) = Some (Addr 0) \<and>
      child_seq h' 0 \<noteq> [] \<and> last (child_seq h' 0) = Addr 1) \<and>
   (\<exists>h'. Remove added_once (Addr 0) (Addr 1) = Some h' \<and> GetParent h' (Addr 1) = Some nullptr)"
proof -
  have obj: "added_once 0 = Some (Composite nullptr [Addr 1])"
    and arg: "deref added_once (Addr 1) = Some (Leaf (Addr 0))"
    by (simp_all add: added_once_def)
  from C6_Add_Remove_GetParent [of added_once 0 nullptr "[Addr 1]" "Addr 1" "Leaf (Addr 0)"]
    obj arg show ?thesis by blast
qed

text \<open>
  C7: \<^verbatim>\<open>Add\<close> and \<^verbatim>\<open>Remove\<close> on a leaf return and leave the whole store as it was,
  whatever the argument is (also the null pointer or a pointer to no object): the
  bodies inherited from \<^verbatim>\<open>Component\<close> are empty.
\<close>

theorem C7_Leaf_Add_Remove_noop:
  assumes "h a = Some (Leaf p)"
  shows "Add h (Addr a) component = Some h \<and> Remove h (Addr a) component = Some h"
  using assms by (simp add: Add_def Remove_def)

theorem C7_Leaf_Add_Remove_noop_witness:
  "added_once 1 = Some (Leaf (Addr 0)) \<and>
   Add added_once (Addr 1) (Addr 0) = Some added_once \<and>
   Remove added_once (Addr 1) (Addr 0) = Some added_once"
proof -
  have "added_once 1 = Some (Leaf (Addr 0))" by (simp add: added_once_def)
  with C7_Leaf_Add_Remove_noop [of added_once 1 "Addr 0" "Addr 0"] show ?thesis by simp
qed

text \<open>
  C9, on the objects that \<^verbatim>\<open>new Leaf\<close> and \<^verbatim>\<open>new Composite\<close> create: nothing
  initialises \<^verbatim>\<open>parent_\<close>, so \<^verbatim>\<open>GetParent\<close> on a new object returns whatever the memory
  of the object held, here a pointer to address 7, and not the null pointer.
\<close>

theorem C9_new_parent_indeterminate:
  "GetParent (new_Leaf Map.empty 0 (Addr 7)) (Addr 0) = Some (Addr 7) \<and>
   GetParent (new_Composite Map.empty 0 (Addr 7)) (Addr 0) = Some (Addr 7)"
  by (simp add: GetParent_def new_Leaf_def new_Composite_def)

text \<open>
  C3 as stated fails where the child occurs twice: \<^verbatim>\<open>std::list::remove\<close> erases every
  element equal to its argument. In the store that two calls of \<^verbatim>\<open>Add\<close> with the same
  leaf leave (\<open>Add_two_fresh\<close>, \<open>Add_added_once\<close>), \<^verbatim>\<open>Remove\<close> of the leaf empties the
  child sequence, where removing the first matching entry only would leave the second
  occurrence in place.
\<close>

theorem C3_Remove_duplicate_counterexample:
  "child_seq added_twice 0 = [Addr 1, Addr 1] \<and>
   Remove added_twice (Addr 0) (Addr 1) = Some removed_all \<and>
   child_seq removed_all 0 = [] \<and>
   remove1 (Addr 1) (child_seq added_twice 0) = [Addr 1]"
proof -
  have "child_seq added_twice 0 = [Addr 1, Addr 1]"
    by (simp add: added_twice_def child_seq_def)
  moreover have "Remove added_twice (Addr 0) (Addr 1) = Some removed_all"
    by (simp add: added_twice_def removed_all_def Remove_def SetParent_def fun_eq_iff)
  moreover have "child_seq removed_all 0 = []"
    by (simp add: removed_all_def child_seq_def)
  ultimately show ?thesis by simp
qed

text \<open>
  C3 as amended: on a composite whose child sequence contains the child, \<^verbatim>\<open>Remove\<close>
  returns; it erases every entry of the child sequence that is the child, keeps the
  other entries in their order, and leaves the child with the null parent.
\<close>

theorem C3_Remove_erases_every_occurrence:
  assumes "h a = Some (Composite p cs)" and "child \<in> set cs" and "deref h child = Some obj"
  shows "\<exists>h'. Remove h (Addr a) child = Some h' \<and>
           child_seq h' a = filter (\<lambda>c. c \<noteq> child) cs \<and>
           GetParent h' child = Some nullptr"
  using assms
  by (cases child)
    (auto simp: Remove_def SetParent_def GetParent_def child_seq_def removeAll_filter_not_eq
      intro: filter_cong)

theorem C3_Remove_erases_every_occurrence_witness:
  "main_heap nullptr 1 = Some (Composite nullptr [Addr 2, Addr 6]) \<and>
   Addr 2 \<in> set [Addr 2, Addr 6] \<and>
   deref (main_heap nullptr) (Addr 2) = Some (Composite (Addr 1) [Addr 3, Addr 4]) \<and>
   (\<exists>h'. Remove (main_heap nullptr) (Addr 1) (Addr 2) = Some h' \<and>
      child_seq h' 1 = [Addr 6] \<and> GetParent h' (Addr 2) = Some nullptr)"
proof -
  have obj: "main_heap nullptr 1 = Some (Composite nullptr [Addr 2, Addr 6])"
    and arg: "deref (main_heap nullptr) (Addr 2) = Some (Composite (Addr 1) [Addr 3, Addr 4])"
    by (simp_all add: main_heap_def)
  have mem: "Addr 2 \<in> set [Addr 2, Addr 6]" by simp
  from C3_Remove_erases_every_occurrence [of "main_heap nullptr" 1 nullptr "[Addr 2, Addr 6]"
      "Addr 2" "Composite (Addr 1) [Addr 3, Addr 4]"] obj arg mem
  show ?thesis by simp
qed

text \<open>
  C4 as stated fails on the parent of the argument: \<^verbatim>\<open>Composite::Remove\<close> calls
  \<^verbatim>\<open>component->SetParent(nullptr)\<close> whether or not the list held the component. The
  leaf at address 2 is a child of composite 1 and of nothing else (\<open>Add_three_fresh\<close>);
  \<^verbatim>\<open>Remove\<close> of the leaf on composite 0 changes the leaf's parent from composite 1 to
  the null pointer.
\<close>

theorem C4_Remove_absent_counterexample:
  "Add three_fresh (Addr 1) (Addr 2) = Some held_by_one \<and>
   Addr 2 \<notin> set (child_seq held_by_one 0) \<and>
   GetParent held_by_one (Addr 2) = Some (Addr 1) \<and>
   Remove held_by_one (Addr 0) (Addr 2) = Some held_parent_cleared \<and>
   GetParent held_parent_cleared (Addr 2) = Some nullptr"
proof -
  have "Addr 2 \<notin> set (child_seq held_by_one 0)"
    by (simp add: held_by_one_def child_seq_def)
  moreover have "GetParent held_by_one (Addr 2) = Some (Addr 1)"
    by (simp add: held_by_one_def GetParent_def)
  moreover have "Remove held_by_one (Addr 0) (Addr 2) = Some held_parent_cleared"
    by (simp add: held_by_one_def held_parent_cleared_def Remove_def SetParent_def fun_eq_iff)
  moreover have "GetParent held_parent_cleared (Addr 2) = Some nullptr"
    by (simp add: held_parent_cleared_def GetParent_def)
  ultimately show ?thesis using Add_three_fresh by simp
qed

text \<open>
  C4 as amended: on a composite whose child sequence does not contain the object \<open>x\<close>,
  \<^verbatim>\<open>Remove\<close> of \<open>x\<close> returns; it changes no child sequence and no object other than
  \<open>x\<close>, and of \<open>x\<close> it changes the parent only, which becomes the null pointer.
\<close>

theorem C4_Remove_absent:
  assumes "h a = Some (Composite p cs)" and "Addr x \<notin> set cs" and "h x = Some obj"
  shows "\<exists>h'. Remove h (Addr a) (Addr x) = Some h' \<and>
           h' = h(x \<mapsto> with_parent obj nullptr) \<and>
           (\<forall>q. child_seq h' q = child_seq h q) \<and>
           GetParent h' (Addr x) = Some nullptr \<and>
           (\<forall>y. y \<noteq> x \<longrightarrow> h' y = h y)"
  using assms by (auto simp: Remove_def SetParent_def GetParent_def child_seq_def)

theorem C4_Remove_absent_witness:
  "main_heap nullptr 2 = Some (Composite (Addr 1) [Addr 3, Addr 4]) \<and>
   Addr 5 \<notin> set [Addr 3, Addr 4] \<and>
   main_heap nullptr 5 = Some (Leaf (Addr 6)) \<and>
   Remove (main_heap nullptr) (Addr 2) (Addr 5) = Some ((main_heap nullptr)(5 \<mapsto> Leaf nullptr)) \<and>
   child_seq ((main_heap nullptr)(5 \<mapsto> Leaf nullptr)) 2 = [Addr 3, Addr 4] \<and>
   child_seq ((main_heap nullptr)(5 \<mapsto> Leaf nullptr)) 6 = [Addr 5]"
proof -
  have obj: "main_heap nullptr 2 = Some (Composite (Addr 1) [Addr 3, Addr 4])"
    and arg: "main_heap nullptr 5 = Some (Leaf (Addr 6))"
    by (simp_all add: main_heap_def)
  have absent: "Addr 5 \<notin> set [Addr 3, Addr 4]" by simp
  have "child_seq (main_heap nullptr) 2 = [Addr 3, Addr 4]"
    and "child_seq (main_heap nullptr) 6 = [Addr 5]"
    by (simp_all add: main_heap_def child_seq_def)
  with C4_Remove_absent [of "main_heap nullptr" 2 "Addr 1" "[Addr 3, Addr 4]" 5 "Leaf (Addr 6)"]
    obj arg absent
  show ?thesis by simp
qed

section \<open>The parent references of a tree\<close>

text \<open>
  A store of objects that nobody has linked is consistent, and a permitted call keeps a
  consistent store consistent.
\<close>

lemma unlinked_parent_consistent:
  assumes "unlinked h"
  shows "parent_consistent h"
proof -
  have obj: "h a = Some (Leaf nullptr) \<or> h a = Some (Composite nullptr [])" if "a \<in> dom h" for a
    using assms that unfolding unlinked_def by blast
  have no_children: "child_seq h q = []" for q
  proof (cases "q \<in> dom h")
    case True
    from obj [OF this] show ?thesis by (auto simp: child_seq_def)
  next
    case False
    then show ?thesis by (simp add: child_seq_def domIff)
  qed
  have "GetParent h (Addr c) = Some nullptr" if "c \<in> dom h" for c
    using obj [OF that] by (auto simp: GetParent_def)
  then show ?thesis
    by (simp add: parent_consistent_def no_children)
qed

lemma Add_preserves:
  assumes inv: "parent_consistent h" and free: "\<not> held_elsewhere h this c"
    and add: "Add h this c = Some h'"
  shows "parent_consistent h'"
proof -
  from add obtain a obj where recv: "this = Addr a" and obj: "h a = Some obj"
    by (auto simp: Add_def split: ptr.splits option.splits)
  show ?thesis
  proof (cases obj)
    case (Leaf p)
    with add recv obj have "h' = h" by (simp add: Add_def)
    with inv show ?thesis by simp
  next
    case (Composite p cs)
    with obj have ha: "h a = Some (Composite p cs)" by simp
    note eff = Add_Composite_effect [OF ha add [unfolded recv]]
    have cs: "child_seq h a = cs" using ha by (simp add: child_seq_def)
    have a: "a \<in> dom h" using ha by auto
    show ?thesis
      unfolding parent_consistent_def eff(1)
    proof (intro conjI ballI impI)
      fix x q
      assume x: "x \<in> dom h" and q: "q \<in> dom h" and mem: "Addr x \<in> set (child_seq h' q)"
      show "GetParent h' (Addr x) = Some (Addr q)"
      proof (cases "Addr x = c")
        case True
        have "q = a"
        proof (rule ccontr)
          assume "q \<noteq> a"
          with mem True have "c \<in> set (child_seq h q)" by (simp add: eff(2))
          with q \<open>q \<noteq> a\<close> have "held_elsewhere h this c"
            unfolding held_elsewhere_def recv by auto
          with free show False by simp
        qed
        with True eff(3) [of x] show ?thesis by simp
      next
        case False
        with mem have "Addr x \<in> set (child_seq h q)"
          by (auto simp: eff(2) cs split: if_splits)
        with inv x q have "GetParent h (Addr x) = Some (Addr q)"
          unfolding parent_consistent_def by blast
        with False show ?thesis by (simp add: eff(3))
      qed
    next
      fix x
      assume x: "x \<in> dom h" and none: "\<forall>q\<in>dom h. Addr x \<notin> set (child_seq h' q)"
      from none a have "Addr x \<notin> set (child_seq h' a)" by blast
      then have neq: "Addr x \<noteq> c" by (auto simp: eff(2))
      have "Addr x \<notin> set (child_seq h q)" if "q \<in> dom h" for q
      proof -
        from none that have "Addr x \<notin> set (child_seq h' q)" by blast
        then show ?thesis using cs by (cases "q = a") (auto simp: eff(2))
      qed
      then have "\<forall>q\<in>dom h. Addr x \<notin> set (child_seq h q)" by blast
      with inv x have "GetParent h (Addr x) = Some nullptr"
        unfolding parent_consistent_def by blast
      with neq show "GetParent h' (Addr x) = Some nullptr" by (simp add: eff(3))
    qed
  qed
qed

lemma Remove_preserves:
  assumes inv: "parent_consistent h" and free: "\<not> held_elsewhere h this c"
    and rem: "Remove h this c = Some h'"
  shows "parent_consistent h'"
proof -
  from rem obtain a obj where recv: "this = Addr a" and obj: "h a = Some obj"
    by (auto simp: Remove_def split: ptr.splits option.splits)
  show ?thesis
  proof (cases obj)
    case (Leaf p)
    with rem recv obj have "h' = h" by (simp add: Remove_def)
    with inv show ?thesis by simp
  next
    case (Composite p cs)
    with obj have ha: "h a = Some (Composite p cs)" by simp
    note eff = Remove_Composite_effect [OF ha rem [unfolded recv]]
    have cs: "child_seq h a = cs" using ha by (simp add: child_seq_def)
    have a: "a \<in> dom h" using ha by auto
    show ?thesis
      unfolding parent_consistent_def eff(1)
    proof (intro conjI ballI impI)
      fix x q
      assume x: "x \<in> dom h" and q: "q \<in> dom h" and mem: "Addr x \<in> set (child_seq h' q)"
      have old: "Addr x \<in> set (child_seq h q)"
        using mem by (auto simp: eff(2) cs split: if_splits)
      have neq: "Addr x \<noteq> c"
      proof
        assume eq: "Addr x = c"
        with mem have "q \<noteq> a" by (auto simp: eff(2))
        with q old eq have "held_elsewhere h this c"
          unfolding held_elsewhere_def recv by auto
        with free show False by simp
      qed
      from inv x q old have "GetParent h (Addr x) = Some (Addr q)"
        unfolding parent_consistent_def by blast
      with neq show "GetParent h' (Addr x) = Some (Addr q)" by (simp add: eff(3))
    next
      fix x
      assume x: "x \<in> dom h" and none: "\<forall>q\<in>dom h. Addr x \<notin> set (child_seq h' q)"
      show "GetParent h' (Addr x) = Some nullptr"
      proof (cases "Addr x = c")
        case True
        with eff(3) [of x] show ?thesis by simp
      next
        case False
        have "Addr x \<notin> set (child_seq h q)" if "q \<in> dom h" for q
        proof -
          from none that have "Addr x \<notin> set (child_seq h' q)" by blast
          then show ?thesis using cs False by (cases "q = a") (auto simp: eff(2))
        qed
        then have "\<forall>q\<in>dom h. Addr x \<notin> set (child_seq h q)" by blast
        with inv x have "GetParent h (Addr x) = Some nullptr"
          unfolding parent_consistent_def by blast
        with False show ?thesis by (simp add: eff(3))
      qed
    qed
  qed
qed

lemma exec_preserves:
  "parent_consistent h \<Longrightarrow> permitted h c \<Longrightarrow> exec h c = Some h' \<Longrightarrow> parent_consistent h'"
  by (cases c) (auto intro: Add_preserves Remove_preserves)

lemma run_preserves:
  "parent_consistent h \<Longrightarrow> disciplined h cs \<Longrightarrow> run h cs = Some h' \<Longrightarrow> parent_consistent h'"
proof (induction cs arbitrary: h)
  case Nil
  then show ?case by simp
next
  case (Cons c cs)
  from Cons.prems obtain h1 where step: "exec h c = Some h1" and rest: "run h1 cs = Some h'"
    and ok: "permitted h c" and disc: "disciplined h1 cs"
    by (auto split: option.splits)
  from Cons.prems(1) ok step have "parent_consistent h1" by (rule exec_preserves)
  from this disc rest show ?case by (rule Cons.IH)
qed

text \<open>
  C5 as stated fails, in three ways. From new objects with null parents: a direct
  \<^verbatim>\<open>SetParent\<close> gives a leaf that is in no child sequence a parent; \<^verbatim>\<open>Add\<close> of one leaf
  to two composites leaves it in the child sequence of the first with the second as its
  parent; \<^verbatim>\<open>Remove\<close> of a leaf on a composite that does not hold it clears the parent
  of the leaf while another composite still holds it.
\<close>

theorem C5_parent_consistent_counterexample:
  "unlinked three_fresh \<and>
   run three_fresh [CallSetParent (Addr 2) (Addr 0)] = Some parent_set_directly \<and>
   \<not> parent_consistent parent_set_directly \<and>
   run three_fresh [CallAdd (Addr 0) (Addr 2), CallAdd (Addr 1) (Addr 2)] = Some held_by_both \<and>
   \<not> parent_consistent held_by_both \<and>
   run three_fresh [CallAdd (Addr 1) (Addr 2), CallRemove (Addr 0) (Addr 2)] =
     Some held_parent_cleared \<and>
   \<not> parent_consistent held_parent_cleared"
proof -
  have "unlinked three_fresh"
    by (simp add: unlinked_def three_fresh_def new_Leaf_def new_Composite_def)
  moreover have "run three_fresh [CallSetParent (Addr 2) (Addr 0)] = Some parent_set_directly"
    by (simp add: three_fresh_def parent_set_directly_def new_Leaf_def new_Composite_def
        SetParent_def fun_eq_iff)
  moreover have "\<not> parent_consistent parent_set_directly"
    by (simp add: parent_consistent_def parent_set_directly_def child_seq_def GetParent_def)
  moreover have "run three_fresh [CallAdd (Addr 0) (Addr 2), CallAdd (Addr 1) (Addr 2)] =
      Some held_by_both"
    by (simp add: three_fresh_def held_by_both_def new_Leaf_def new_Composite_def Add_def
        SetParent_def fun_eq_iff)
  moreover have "\<not> parent_consistent held_by_both"
    by (simp add: parent_consistent_def held_by_both_def child_seq_def GetParent_def)
  moreover have "run three_fresh [CallAdd (Addr 1) (Addr 2), CallRemove (Addr 0) (Addr 2)] =
      Some held_parent_cleared"
    by (simp add: three_fresh_def held_parent_cleared_def new_Leaf_def new_Composite_def
        Add_def Remove_def SetParent_def fun_eq_iff)
  moreover have "\<not> parent_consistent held_parent_cleared"
    by (simp add: parent_consistent_def held_parent_cleared_def child_seq_def GetParent_def)
  ultimately show ?thesis by simp
qed

text \<open>
  C5 as amended: start from objects with null parents and empty child sequences, and
  run any sequence of \<^verbatim>\<open>Add\<close> and \<^verbatim>\<open>Remove\<close> calls in which no call's argument is, at
  the time of the call, in the child sequence of an object other than the receiver, and
  no \<^verbatim>\<open>SetParent\<close> is called directly. In every store this reaches, every object in
  the child sequence of an object has that object as its parent, and every object in no
  child sequence has the null parent.
\<close>

theorem C5_disciplined_parent_consistent:
  assumes "unlinked h" and "disciplined h cs" and "run h cs = Some h'"
  shows "parent_consistent h'"
  using assms by (blast intro: run_preserves unlinked_parent_consistent)

theorem C5_disciplined_parent_consistent_witness:
  "unlinked three_fresh \<and> disciplined three_fresh move_leaf \<and>
   run three_fresh move_leaf = Some leaf_moved \<and> parent_consistent leaf_moved"
proof -
  have fresh: "unlinked three_fresh"
    by (simp add: unlinked_def three_fresh_def new_Leaf_def new_Composite_def)
  have disc: "disciplined three_fresh move_leaf"
    by (simp add: move_leaf_def three_fresh_def new_Leaf_def new_Composite_def Add_def
        Remove_def SetParent_def held_elsewhere_def child_seq_def)
  have run: "run three_fresh move_leaf = Some leaf_moved"
    by (simp add: move_leaf_def leaf_moved_def three_fresh_def new_Leaf_def new_Composite_def
        Add_def Remove_def SetParent_def fun_eq_iff)
  from C5_disciplined_parent_consistent [OF fresh disc run] fresh disc run
  show ?thesis by simp
qed

section \<open>Termination of \<^verbatim>\<open>Operation\<close>\<close>

text \<open>
  A result of \<^verbatim>\<open>Operation\<close> does not depend on how much nesting is allowed beyond
  what it needs, and the loop returns when every call for a child returns.
\<close>

lemma Operation_fuel_mono:
  "Operation n h this = Some s \<Longrightarrow> n \<le> m \<Longrightarrow> Operation m h this = Some s"
  "Operation_loop n h children rest acc = Some r \<Longrightarrow> n \<le> m \<Longrightarrow>
     Operation_loop m h children rest acc = Some r"
proof (induction n h this and n h children rest acc arbitrary: s m and r m
    rule: Operation_Operation_loop.induct)
  case (1 h this)
  then show ?case by simp
next
  case (2 n h this)
  from \<open>Suc n \<le> m\<close> obtain m' where m: "m = Suc m'" and le: "n \<le> m'"
    by (cases m) auto
  show ?case
  proof (cases "deref h this")
    case None
    with 2 show ?thesis by simp
  next
    case (Some obj)
    show ?thesis
    proof (cases obj)
      case (Leaf p)
      with Some 2 m show ?thesis by simp
    next
      case (Composite p cs)
      with Some 2(2) obtain r where r: "Operation_loop n h cs cs [] = Some r"
        and s: "s = ''Branch('' @ r @ '')''"
        by (auto split: option.splits)
      from 2(1) [OF Some Composite r le] have "Operation_loop m' h cs cs [] = Some r" .
      with Some Composite s m show ?thesis by simp
    qed
  qed
next
  case (3 n h children result)
  then show ?case by simp
next
  case (4 n h children c rest result)
  from 4(4) obtain s where s: "Operation n h c = Some s"
    by (auto split: option.splits)
  from 4(1) [OF s \<open>n \<le> m\<close>] have s': "Operation m h c = Some s" .
  show ?case
  proof (cases "c = last children")
    case True
    with 4(4) s have "Operation_loop n h children rest (result @ s) = Some r" by simp
    from 4(2) [OF s True this \<open>n \<le> m\<close>] s' True show ?thesis by simp
  next
    case False
    with 4(4) s have "Operation_loop n h children rest (result @ s @ ''+'') = Some r" by simp
    from 4(3) [OF s False this \<open>n \<le> m\<close>] s' False show ?thesis by simp
  qed
qed

lemma Operation_loop_returns:
  "(\<And>c. c \<in> set rest \<Longrightarrow> \<exists>s. Operation n h c = Some s) \<Longrightarrow>
   \<exists>r. Operation_loop n h children rest acc = Some r"
proof (induction rest arbitrary: acc)
  case Nil
  then show ?case by simp
next
  case (Cons c rest)
  from Cons.prems [of c] obtain s where "Operation n h c = Some s" by auto
  moreover have "\<exists>r. Operation_loop n h children rest acc' = Some r" for acc'
    by (rule Cons.IH) (simp add: Cons.prems)
  ultimately show ?case by simp
qed


subsection \<open>The tree below an object\<close>

lemma descendants_self: "a \<in> descendants h a"
  by (simp add: descendants_def)

lemma descendants_child:
  assumes "Addr c \<in> set (child_seq h p)" and "p \<in> descendants h a"
  shows "c \<in> descendants h a"
proof -
  from assms(1) have "(c, p) \<in> child_rel h" by (simp add: child_rel_def)
  moreover from assms(2) have "(p, a) \<in> (child_rel h)\<^sup>*" by (simp add: descendants_def)
  ultimately have "(c, a) \<in> (child_rel h)\<^sup>*" by (rule converse_rtrancl_into_rtrancl)
  then show ?thesis by (simp add: descendants_def)
qed

lemma descendants_mono:
  assumes "b \<in> descendants h a"
  shows "descendants h b \<subseteq> descendants h a"
  using assms by (auto simp: descendants_def)

lemma descendants_cases:
  assumes "b \<in> descendants h a"
  obtains "b = a" | c where "Addr c \<in> set (child_seq h a)" and "b \<in> descendants h c"
proof -
  from assms have "(b, a) \<in> (child_rel h)\<^sup>*" by (simp add: descendants_def)
  then show ?thesis
  proof (cases rule: rtranclE)
    case base
    then show ?thesis by (rule that(1))
  next
    case (step c)
    then show ?thesis by (intro that(2) [of c]) (simp_all add: child_rel_def descendants_def)
  qed
qed

lemma descendants_closed_set:
  assumes "a \<in> S"
    and "\<And>c p. p \<in> S \<Longrightarrow> Addr c \<in> set (child_seq h p) \<Longrightarrow> c \<in> S"
  shows "descendants h a \<subseteq> S"
proof
  fix b
  assume "b \<in> descendants h a"
  then have "(b, a) \<in> (child_rel h)\<^sup>*" by (simp add: descendants_def)
  then show "b \<in> S"
  proof (induction rule: converse_rtrancl_induct)
    case base
    from assms(1) show ?case .
  next
    case (step b c)
    from step.hyps(1) have "Addr b \<in> set (child_seq h c)" by (simp add: child_rel_def)
    with step.IH show ?case by (rule assms(2))
  qed
qed

lemma closed_below_mono: "closed_below h a \<Longrightarrow> b \<in> descendants h a \<Longrightarrow> closed_below h b"
  unfolding closed_below_def using descendants_mono by blast

lemma acyclic_below_mono: "acyclic_below h a \<Longrightarrow> b \<in> descendants h a \<Longrightarrow> acyclic_below h b"
  unfolding acyclic_below_def using descendants_mono by blast

lemma unshared_below_mono:
  "unshared_below h a \<Longrightarrow> b \<in> descendants h a \<Longrightarrow> unshared_below h b"
  unfolding unshared_below_def using descendants_mono [of b h a] by blast

lemma closed_below_child:
  assumes "closed_below h a" and "c \<in> set (child_seq h a)"
  obtains b where "c = Addr b" and "b \<in> dom h" and "b \<in> descendants h a"
proof -
  from assms descendants_self [of a h] have "deref h c \<noteq> None"
    unfolding closed_below_def by blast
  then obtain b where c: "c = Addr b" and "b \<in> dom h" by (cases c) auto
  moreover from assms(2) c have "b \<in> descendants h a"
    by (auto intro: descendants_child descendants_self)
  ultimately show ?thesis by (rule that)
qed

lemma not_below_child:
  assumes "acyclic_below h a" and "Addr c \<in> set (child_seq h a)"
  shows "a \<notin> descendants h c"
proof
  assume "a \<in> descendants h c"
  then have "(a, c) \<in> (child_rel h)\<^sup>*" by (simp add: descendants_def)
  moreover from assms(2) have "(c, a) \<in> child_rel h" by (simp add: child_rel_def)
  ultimately have "(a, a) \<in> (child_rel h)\<^sup>+" by (rule rtrancl_into_trancl1)
  with assms(1) descendants_self [of a h] show False
    unfolding acyclic_below_def by blast
qed

lemma child_descendants_less:
  assumes "finite (descendants h a)" and "acyclic_below h a"
    and "Addr c \<in> set (child_seq h a)"
  shows "card (descendants h c) < card (descendants h a)"
proof -
  have "c \<in> descendants h a"
    using assms(3) descendants_self by (rule descendants_child)
  then have "descendants h c \<subseteq> descendants h a" by (rule descendants_mono)
  moreover have "a \<in> descendants h a" by (rule descendants_self)
  moreover have "a \<notin> descendants h c" using assms(2,3) by (rule not_below_child)
  ultimately have "descendants h c \<subset> descendants h a" by blast
  with assms(1) show ?thesis by (rule psubset_card_mono)
qed

lemma Operation_returns_aux:
  assumes "a \<in> dom h" and "finite (descendants h a)" and "closed_below h a"
    and "acyclic_below h a" and "card (descendants h a) \<le> n"
  shows "\<exists>s. Operation n h (Addr a) = Some s"
  using assms
proof (induction n arbitrary: a)
  case 0
  from 0(2) descendants_self [of a h] have "card (descendants h a) \<noteq> 0" by auto
  with 0(5) show ?case by simp
next
  case (Suc n)
  from Suc.prems(1) obtain obj where obj: "h a = Some obj" by auto
  show ?case
  proof (cases obj)
    case (Leaf p)
    with obj show ?thesis by simp
  next
    case (Composite p cs)
    have "\<exists>s. Operation n h c = Some s" if "c \<in> set cs" for c
    proof -
      from that obj Composite have mem: "c \<in> set (child_seq h a)" by (simp add: child_seq_def)
      with Suc.prems(3) obtain b where c: "c = Addr b" and b: "b \<in> dom h"
        and below: "b \<in> descendants h a"
        by (rule closed_below_child)
      from child_descendants_less [OF Suc.prems(2,4) mem [unfolded c]] Suc.prems(5)
      have "card (descendants h b) \<le> n" by simp
      moreover have "finite (descendants h b)"
        using descendants_mono [OF below] Suc.prems(2) by (rule finite_subset)
      moreover note closed_below_mono [OF Suc.prems(3) below]
        acyclic_below_mono [OF Suc.prems(4) below]
      ultimately show ?thesis unfolding c using b by (intro Suc.IH)
    qed
    then obtain r where "Operation_loop n h cs cs [] = Some r"
      using Operation_loop_returns [of cs n h cs "[]"] by blast
    with obj Composite show ?thesis by simp
  qed
qed

subsection \<open>Counting the calls\<close>

text \<open>
  The count is there exactly when \<^verbatim>\<open>Operation\<close> returns. In an unshared tree every
  object has one holder, so the trees below two different children of an object are
  disjoint, and the loop adds up the sizes of the trees below the children.
\<close>

lemma Operation_calls_None:
  "(Operation_calls n h this = None) = (Operation n h this = None)"
  "(Operation_loop_calls n h rest k = None) = (Operation_loop n h children rest acc = None)"
proof (induction n h this and n h rest k arbitrary: and children acc
    rule: Operation_calls_Operation_loop_calls.induct)
  case (1 h this)
  then show ?case by simp
next
  case (2 n h this)
  show ?case
  proof (cases "deref h this")
    case None
    then show ?thesis by simp
  next
    case (Some obj)
    show ?thesis
    proof (cases obj)
      case (Leaf p)
      with Some show ?thesis by simp
    next
      case (Composite p cs)
      from 2 [OF Some Composite, of cs "[]"] Some Composite show ?thesis
        by (cases "Operation_loop_calls n h cs 0"; cases "Operation_loop n h cs cs []") auto
    qed
  qed
next
  case (3 n h k)
  then show ?case by simp
next
  case (4 n h c rest k)
  show ?case
  proof (cases "Operation_calls n h c")
    case None
    with 4(1) show ?thesis by simp
  next
    case (Some j)
    with 4(1) obtain s where s: "Operation n h c = Some s" by auto
    from 4(2) [OF Some] Some s show ?thesis by simp
  qed
qed

lemma descendants_holder_cases:
  assumes "b \<in> descendants h a"
  obtains "b = a" | p where "Addr b \<in> set (child_seq h p)" and "p \<in> descendants h a"
proof -
  from assms have "(b, a) \<in> (child_rel h)\<^sup>*" by (simp add: descendants_def)
  then show ?thesis
  proof (cases rule: converse_rtranclE)
    case base
    then show ?thesis by (rule that(1))
  next
    case (step p)
    then show ?thesis by (intro that(2) [of p]) (simp_all add: child_rel_def descendants_def)
  qed
qed

lemma unique_holder:
  assumes "unshared_below h a" and "p \<in> descendants h a" and "q \<in> descendants h a"
    and "c \<in> set (child_seq h p)" and "c \<in> set (child_seq h q)"
  shows "p = q"
  using assms unfolding unshared_below_def by blast

lemma ancestors_chain:
  assumes un: "unshared_below h a" and c: "c \<in> descendants h a" and x: "x \<in> descendants h c"
    and path: "(x, y) \<in> (child_rel h)\<^sup>*" and y: "y \<in> descendants h a"
  shows "y \<in> descendants h c \<or> c \<in> descendants h y"
  using path y
proof (induction rule: rtrancl_induct)
  case base
  from x show ?case by simp
next
  case (step y z)
  from step.hyps(2) have yz: "Addr y \<in> set (child_seq h z)" by (simp add: child_rel_def)
  from yz step.prems have y: "y \<in> descendants h a" by (rule descendants_child)
  from step.IH [OF y] show ?case
  proof
    assume "c \<in> descendants h y"
    moreover have "y \<in> descendants h z" using yz descendants_self by (rule descendants_child)
    ultimately show ?thesis using descendants_mono by blast
  next
    assume "y \<in> descendants h c"
    then show ?thesis
    proof (cases rule: descendants_holder_cases)
      case 1
      with yz have "c \<in> descendants h z"
        by (auto intro: descendants_child descendants_self)
      then show ?thesis ..
    next
      case (2 w)
      from 2(2) c have "w \<in> descendants h a" using descendants_mono by blast
      from un this step.prems 2(1) yz have "w = z" by (rule unique_holder)
      with 2(2) show ?thesis by simp
    qed
  qed
qed

lemma siblings_disjoint:
  assumes un: "unshared_below h a" and ac: "acyclic_below h a"
    and c: "Addr c \<in> set (child_seq h a)" and d: "Addr d \<in> set (child_seq h a)"
    and neq: "c \<noteq> d"
  shows "descendants h c \<inter> descendants h d = {}"
proof -
  have apart: False
    if c: "Addr c \<in> set (child_seq h a)" and d: "Addr d \<in> set (child_seq h a)"
      and neq: "c \<noteq> d" and below: "c \<in> descendants h d" for c d
    using below
  proof (cases rule: descendants_holder_cases)
    case 1
    with neq show False by simp
  next
    case (2 w)
    have "d \<in> descendants h a" using d descendants_self by (rule descendants_child)
    with 2(2) have "w \<in> descendants h a" using descendants_mono by blast
    from un this descendants_self 2(1) c have "w = a" by (rule unique_holder)
    with 2(2) not_below_child [OF ac d] show False by simp
  qed
  show ?thesis
  proof (rule ccontr)
    assume "descendants h c \<inter> descendants h d \<noteq> {}"
    then obtain x where xc: "x \<in> descendants h c" and xd: "x \<in> descendants h d" by blast
    have ca: "c \<in> descendants h a" using c descendants_self by (rule descendants_child)
    have da: "d \<in> descendants h a" using d descendants_self by (rule descendants_child)
    from xc have "(x, c) \<in> (child_rel h)\<^sup>*" by (simp add: descendants_def)
    from ancestors_chain [OF un da xd this ca]
    show False
    proof
      assume "c \<in> descendants h d"
      with c d neq show False by (rule apart)
    next
      assume "d \<in> descendants h c"
      with d c neq [symmetric] show False by (rule apart)
    qed
  qed
qed

lemma Operation_loop_calls_sum:
  assumes "\<And>c. c \<in> set rest \<Longrightarrow>
      \<exists>b. c = Addr b \<and> finite (descendants h b) \<and>
        Operation_calls n h c = Some (card (descendants h b))"
    and "distinct rest"
    and "\<And>b b'. Addr b \<in> set rest \<Longrightarrow> Addr b' \<in> set rest \<Longrightarrow> b \<noteq> b' \<Longrightarrow>
      descendants h b \<inter> descendants h b' = {}"
  shows "Operation_loop_calls n h rest k =
    Some (k + card (\<Union>b\<in>{b. Addr b \<in> set rest}. descendants h b))"
  using assms
proof (induction rest arbitrary: k)
  case Nil
  then show ?case by simp
next
  case (Cons c rest)
  from Cons.prems(1) [of c] obtain b where c: "c = Addr b" and fin: "finite (descendants h b)"
    and calls: "Operation_calls n h c = Some (card (descendants h b))"
    by auto
  let ?U = "\<Union>b\<in>{b. Addr b \<in> set rest}. descendants h b"
  have IH: "Operation_loop_calls n h rest k' = Some (k' + card ?U)" for k'
    using Cons.prems by (intro Cons.IH) auto
  have "finite {b. Addr b \<in> set rest}"
    using finite_vimageI [of "set rest" Addr] by (simp add: vimage_def inj_on_def)
  moreover have "finite (descendants h b')" if "Addr b' \<in> set rest" for b'
    using Cons.prems(1) [of "Addr b'"] that by auto
  ultimately have finU: "finite ?U" by blast
  have "descendants h b \<inter> descendants h b' = {}" if "Addr b' \<in> set rest" for b'
  proof -
    from that Cons.prems(2) c have "b \<noteq> b'" by auto
    with that c show ?thesis by (intro Cons.prems(3)) simp_all
  qed
  then have disj: "descendants h b \<inter> ?U = {}" by blast
  have "(\<Union>b\<in>{b. Addr b \<in> set (c # rest)}. descendants h b) = descendants h b \<union> ?U"
    using c by auto
  then have "card (\<Union>b\<in>{b. Addr b \<in> set (c # rest)}. descendants h b) =
      card (descendants h b) + card ?U"
    using fin finU disj by (simp add: card_Un_disjoint)
  with calls IH show ?case by simp
qed

lemma Operation_calls_count:
  assumes "a \<in> dom h" and "finite (descendants h a)" and "closed_below h a"
    and "acyclic_below h a" and "unshared_below h a" and "card (descendants h a) \<le> n"
  shows "Operation_calls n h (Addr a) = Some (card (descendants h a))"
  using assms
proof (induction n arbitrary: a)
  case 0
  from 0(2) descendants_self [of a h] have "card (descendants h a) \<noteq> 0" by auto
  with 0(6) show ?case by simp
next
  case (Suc n)
  from Suc.prems(1) obtain obj where obj: "h a = Some obj" by auto
  let ?U = "\<Union>b\<in>{b. Addr b \<in> set (child_seq h a)}. descendants h b"
  have "descendants h a = insert a ?U"
  proof
    show "descendants h a \<subseteq> insert a ?U"
      by (auto elim: descendants_cases)
    show "insert a ?U \<subseteq> descendants h a"
      using descendants_self [of a h] descendants_mono [of _ h a]
      by (auto dest: descendants_child [OF _ descendants_self])
  qed
  moreover have "a \<notin> ?U"
    using not_below_child [OF Suc.prems(4)] by blast
  moreover have "finite ?U"
    using calculation(1) Suc.prems(2) by (auto intro: finite_subset)
  ultimately have card: "card (descendants h a) = Suc (card ?U)" by simp
  show ?case
  proof (cases obj)
    case (Leaf p)
    with obj have "child_seq h a = []" by (simp add: child_seq_def)
    with card have "card (descendants h a) = 1" by simp
    with obj Leaf show ?thesis by simp
  next
    case (Composite p cs)
    with obj have cs: "child_seq h a = cs" by (simp add: child_seq_def)
    have each: "\<exists>b. c = Addr b \<and> finite (descendants h b) \<and>
        Operation_calls n h c = Some (card (descendants h b))" if "c \<in> set cs" for c
    proof -
      from that cs have mem: "c \<in> set (child_seq h a)" by simp
      with Suc.prems(3) obtain b where c: "c = Addr b" and b: "b \<in> dom h"
        and below: "b \<in> descendants h a"
        by (rule closed_below_child)
      from child_descendants_less [OF Suc.prems(2,4) mem [unfolded c]] Suc.prems(6)
      have le: "card (descendants h b) \<le> n" by simp
      have fin: "finite (descendants h b)"
        using descendants_mono [OF below] Suc.prems(2) by (rule finite_subset)
      from b fin closed_below_mono [OF Suc.prems(3) below]
        acyclic_below_mono [OF Suc.prems(4) below] unshared_below_mono [OF Suc.prems(5) below] le
      have "Operation_calls n h (Addr b) = Some (card (descendants h b))" by (rule Suc.IH)
      with c fin show ?thesis by simp
    qed
    have "distinct cs"
      using Suc.prems(5) descendants_self [of a h] cs unfolding unshared_below_def by auto
    with each have "Operation_loop_calls n h cs 0 =
        Some (0 + card (\<Union>b\<in>{b. Addr b \<in> set cs}. descendants h b))"
    proof (rule Operation_loop_calls_sum)
      fix b b'
      assume "Addr b \<in> set cs" and "Addr b' \<in> set cs" and "b \<noteq> b'"
      with cs show "descendants h b \<inter> descendants h b' = {}"
        by (intro siblings_disjoint [OF Suc.prems(5,4)]) simp_all
    qed
    with obj Composite cs card show ?thesis by simp
  qed
qed

lemma acyclic_below_by_rank:
  fixes f :: "nat \<Rightarrow> nat"
  assumes "\<And>c p. p \<in> descendants h a \<Longrightarrow> Addr c \<in> set (child_seq h p) \<Longrightarrow> f p < f c"
  shows "acyclic_below h a"
proof -
  have "x \<in> descendants h b \<and> f b < f x"
    if "b \<in> descendants h a" and "(x, b) \<in> (child_rel h)\<^sup>+" for x b
    using that(2)
  proof (induction rule: converse_trancl_induct)
    case (base y)
    then have "Addr y \<in> set (child_seq h b)" by (simp add: child_rel_def)
    with that(1) show ?case
      by (auto intro: assms descendants_child descendants_self)
  next
    case (step y z)
    from step.hyps(1) have yz: "Addr y \<in> set (child_seq h z)" by (simp add: child_rel_def)
    from step.IH that(1) have "z \<in> descendants h a" using descendants_mono by blast
    from this yz have "f z < f y" by (rule assms)
    with step.IH yz show ?case by (auto intro: descendants_child)
  qed
  then show ?thesis unfolding acyclic_below_def by blast
qed

lemma unshared_below_subset:
  assumes "descendants h a \<subseteq> S"
    and "\<forall>p\<in>S. distinct (child_seq h p)"
    and "\<forall>p\<in>S. \<forall>q\<in>S. p \<noteq> q \<longrightarrow> set (child_seq h p) \<inter> set (child_seq h q) = {}"
  shows "unshared_below h a"
  unfolding unshared_below_def using assms by blast

text \<open>
  Without acyclicity \<^verbatim>\<open>Operation\<close> need not return: \<^verbatim>\<open>Add\<close> accepts the composite
  itself as the argument, and on the store it leaves \<^verbatim>\<open>Operation\<close> returns for no
  nesting depth.
\<close>

lemma Add_self: "Add (new_Composite Map.empty 0 nullptr) (Addr 0) (Addr 0) = Some self_held"
  by (simp add: self_held_def new_Composite_def Add_def SetParent_def)

lemma Operation_self_held: "Operation n self_held (Addr 0) = None"
  by (induction n) (simp_all add: self_held_def)

text \<open>
  C8 as stated fails where children are shared: no object is its own descendant, yet
  the traversal makes more calls than there are objects. From three new objects, a
  client adds the leaf to composite 1 twice and composite 1 to composite 0 twice. The
  tree below composite 0 is the whole store, three objects, closed and acyclic;
  \<^verbatim>\<open>Operation\<close> on composite 0 returns, after seven calls of \<^verbatim>\<open>Operation\<close>.
\<close>

theorem C8_shared_children_counterexample:
  "unlinked three_fresh \<and> run three_fresh share_twice = Some shared_twice \<and>
   dom shared_twice = {0, 1, 2} \<and> descendants shared_twice 0 = {0, 1, 2} \<and>
   closed_below shared_twice 0 \<and> acyclic_below shared_twice 0 \<and>
   Operation 3 shared_twice (Addr 0) = Some ''Branch(Branch(LeafLeaf)Branch(LeafLeaf))'' \<and>
   Operation_calls 3 shared_twice (Addr 0) = Some 7"
proof -
  have fresh: "unlinked three_fresh"
    by (simp add: unlinked_def three_fresh_def new_Leaf_def new_Composite_def)
  have run: "run three_fresh share_twice = Some shared_twice"
    by (simp add: share_twice_def shared_twice_def three_fresh_def new_Leaf_def
        new_Composite_def Add_def SetParent_def fun_eq_iff)
  have dom: "dom shared_twice = {0, 1, 2}"
    by (auto simp: shared_twice_def)
  have seqs: "child_seq shared_twice 0 = [Addr 1, Addr 1]"
    "child_seq shared_twice 1 = [Addr 2, Addr 2]" "child_seq shared_twice 2 = []"
    by (simp_all add: shared_twice_def child_seq_def)
  note seqs = seqs seqs(2) [unfolded One_nat_def]
  have "descendants shared_twice 0 \<subseteq> {0, 1, 2}"
    by (rule descendants_closed_set) (auto simp: seqs)
  moreover have "0 \<in> descendants shared_twice 0" by (rule descendants_self)
  moreover from this have one: "1 \<in> descendants shared_twice 0"
    by (rule descendants_child [rotated]) (simp add: seqs)
  moreover from one have "2 \<in> descendants shared_twice 0"
    by (rule descendants_child [rotated]) (simp add: seqs)
  ultimately have below: "descendants shared_twice 0 = {0, 1, 2}" by blast
  have closed: "closed_below shared_twice 0"
    unfolding closed_below_def below by (simp add: seqs) (simp add: shared_twice_def)
  have acyclic: "acyclic_below shared_twice 0"
    by (rule acyclic_below_by_rank [where f = "\<lambda>a. a"]) (auto simp: below seqs)
  have descr: "Operation 3 shared_twice (Addr 0) =
      Some ''Branch(Branch(LeafLeaf)Branch(LeafLeaf))''"
    by (simp add: shared_twice_def eval_nat_numeral)
  have calls: "Operation_calls 3 shared_twice (Addr 0) = Some 7"
    by (simp add: shared_twice_def eval_nat_numeral)
  from fresh run dom below closed acyclic descr calls show ?thesis by simp
qed

text \<open>
  C8 as amended. Take an object whose tree (the object and its descendants) is finite,
  has an object behind every child pointer and holds no object that is its own
  descendant; the rest of the store may be anything. Then \<^verbatim>\<open>Operation\<close> on the object
  returns: there is one string that it returns at every nesting depth that is at least
  the number of objects of the tree, so its calls never nest deeper than that number.
  If moreover no object occurs twice in the child sequences of the tree, the calls of
  \<^verbatim>\<open>Operation\<close> it makes are exactly as many as the objects of the tree.
\<close>

theorem C8_Operation_terminates:
  assumes "a \<in> dom h" and "finite (descendants h a)" and "closed_below h a"
    and "acyclic_below h a"
  shows "(\<exists>s. \<forall>n\<ge>card (descendants h a). Operation n h (Addr a) = Some s) \<and>
         (unshared_below h a \<longrightarrow>
            (\<forall>n\<ge>card (descendants h a).
               Operation_calls n h (Addr a) = Some (card (descendants h a))))"
proof (intro conjI impI allI)
  from Operation_returns_aux [OF assms order_refl]
  obtain s where "Operation (card (descendants h a)) h (Addr a) = Some s" ..
  then have "\<forall>n\<ge>card (descendants h a). Operation n h (Addr a) = Some s"
    by (blast intro: Operation_fuel_mono(1))
  then show "\<exists>s. \<forall>n\<ge>card (descendants h a). Operation n h (Addr a) = Some s" ..
next
  fix n
  assume "unshared_below h a" and "card (descendants h a) \<le> n"
  with assms show "Operation_calls n h (Addr a) = Some (card (descendants h a))"
    by (intro Operation_calls_count)
qed

text \<open>
  The witness is the tree of \<^verbatim>\<open>main\<close>, six objects below its root, in a store that
  also holds a composite put into itself.
\<close>

theorem C8_Operation_terminates_witness:
  "1 \<in> dom main_beside_cycle \<and> finite (descendants main_beside_cycle 1) \<and>
   closed_below main_beside_cycle 1 \<and> acyclic_below main_beside_cycle 1 \<and>
   unshared_below main_beside_cycle 1 \<and>
   (7, 7) \<in> child_rel main_beside_cycle \<and>
   card (descendants main_beside_cycle 1) = 6 \<and>
   Operation 6 main_beside_cycle (Addr 1) = Some ''Branch(Branch(Leaf+Leaf)+Branch(Leaf))'' \<and>
   Operation_calls 6 main_beside_cycle (Addr 1) = Some 6"
proof -
  let ?h = main_beside_cycle
  have root: "1 \<in> dom ?h"
    by (simp add: main_beside_cycle_def main_heap_def)
  have seqs: "child_seq ?h 1 = [Addr 2, Addr 6]" "child_seq ?h 2 = [Addr 3, Addr 4]"
    "child_seq ?h 3 = []" "child_seq ?h 4 = []" "child_seq ?h 5 = []"
    "child_seq ?h 6 = [Addr 5]" "child_seq ?h 7 = [Addr 7]"
    by (simp_all add: main_beside_cycle_def main_heap_def child_seq_def)
  note seqs = seqs seqs(1) [unfolded One_nat_def]
  have sub: "descendants ?h 1 \<subseteq> {1, 2, 3, 4, 5, 6}"
    by (rule descendants_closed_set) (auto simp: seqs)
  then have fin: "finite (descendants ?h 1)" by (rule finite_subset) simp
  have closed: "closed_below ?h 1"
    unfolding closed_below_def
  proof (intro ballI)
    fix p c
    assume "p \<in> descendants ?h 1" and "c \<in> set (child_seq ?h p)"
    with sub have "c \<in> {Addr 2, Addr 3, Addr 4, Addr 5, Addr 6}" by (auto simp: seqs)
    then show "deref ?h c \<noteq> None"
      by (auto simp: main_beside_cycle_def main_heap_def)
  qed
  define level :: "nat \<Rightarrow> nat"
    where "level a = (if a = 1 then 0 else if a = 2 \<or> a = 6 then 1 else 2)" for a
  have acyclic: "acyclic_below ?h 1"
  proof (rule acyclic_below_by_rank)
    fix c p
    assume "p \<in> descendants ?h 1" and "Addr c \<in> set (child_seq ?h p)"
    with sub show "level p < level c" by (auto simp: seqs level_def)
  qed
  have unshared: "unshared_below ?h 1"
    by (rule unshared_below_subset [OF sub]) (simp_all add: seqs)
  have cycle: "(7, 7) \<in> child_rel ?h" by (simp add: child_rel_def seqs)
  have descr: "Operation 6 ?h (Addr 1) = Some ''Branch(Branch(Leaf+Leaf)+Branch(Leaf))''"
    by (simp add: main_beside_cycle_def main_heap_def eval_nat_numeral)
  have calls: "Operation_calls 6 ?h (Addr 1) = Some 6"
    by (simp add: main_beside_cycle_def main_heap_def eval_nat_numeral)
  from sub have "card (descendants ?h 1) \<le> card {1, 2, 3, 4, 5, 6::nat}"
    by (intro card_mono) simp_all
  then have le: "card (descendants ?h 1) \<le> 6" by simp
  from C8_Operation_terminates [OF root fin closed acyclic] unshared le
  have "Operation_calls 6 ?h (Addr 1) = Some (card (descendants ?h 1))" by blast
  with calls have "card (descendants ?h 1) = 6" by simp
  with root fin closed acyclic unshared cycle descr calls show ?thesis by simp
qed

end
